theory Spec2Isabelle
  imports Main "HOL-Library.Word"
begin

section \<open>Record interning (CompiledRecord.h)\<close>

subsection \<open>Scalars\<close>

text \<open>
  \<open>RamDomain\<close> is declared in RamTypes.h. In CompiledRecord.h the override
  of \<open>getRecordReferences\<close> (line 201) returns \<open>std::map<int, ...>\<close> where the
  base class (line 87) declares \<open>std::map<RamDomain, ...>\<close>, so \<open>RamDomain\<close> is
  \<open>int\<close>: a signed 32-bit integer, read here with \<open>sint\<close>.
\<close>

type_synonym RamDomain = "32 word"

text \<open>\<open>std::numeric_limits<RamDomain>::max()\<close>.\<close>

definition RamDomain_max :: RamDomain where
  "RamDomain_max = 0x7FFFFFFF"

text \<open>
  Conversion of a \<open>RamDomain\<close> to \<open>std::size_t\<close> (64 bits, unsigned), as C++ does
  implicitly in \<open>index / BLOCK_SIZE\<close> and \<open>index % BLOCK_SIZE\<close>: the signed value
  modulo \<open>2 ^ 64\<close>.
\<close>

definition to_size_t :: "RamDomain \<Rightarrow> nat" where
  "to_size_t index = nat (sint index mod 2 ^ 64)"

text \<open>Line 130: \<open>BLOCK_SIZE = 1 << 20\<close>.\<close>

definition BLOCK_SIZE :: nat where
  "BLOCK_SIZE = 2 ^ 20"

subsection \<open>Null reference (lines 64-72)\<close>

definition getNull :: RamDomain where
  "getNull = 0"

definition isNull :: "RamDomain \<Rightarrow> bool" where
  "isNull ref = (ref = 0)"

subsection \<open>The record map (lines 127-209)\<close>

text \<open>
  \<open>RecordMap<Tuple>\<close> for a tuple type \<open>'t\<close>. The forward index \<open>r2i\<close> is an
  \<open>unordered_map\<close>: an association list in insertion order, with \<open>find\<close> as
  \<open>map_of\<close> and \<open>size()\<close> as \<open>length\<close> (every insertion below is of an absent
  key). A block is a \<open>std::array<Tuple, BLOCK_SIZE>\<close>: a function from the
  offset, of which only the offsets below \<open>BLOCK_SIZE\<close> are ever used; \<open>i2r\<close>
  is the vector of blocks. The lock is not modelled: calls are sequential.
\<close>

record 't RecordMap =
  r2i :: "('t \<times> RamDomain) list"
  i2r :: "(nat \<Rightarrow> 't) list"

definition RecordMap_init :: "'t RecordMap" where
  "RecordMap_init = \<lparr> r2i = [], i2r = [] \<rparr>"

text \<open>
  \<open>AssertionFailed\<close> is the \<open>assert\<close> of line 175 aborting; \<open>OutOfBounds\<close> is
  \<open>i2r[...]\<close> applied beyond the vector's size, which C++ leaves undefined.
\<close>

datatype error = AssertionFailed | OutOfBounds

text \<open>
  \<open>pack\<close>, lines 156-191. \<open>dflt\<close> is the value-initialised \<open>Tuple\<close> that
  \<open>std::make_unique<block_type>()\<close> fills a new block with (the tuple type is a
  template parameter, declared in CompiledTuple.h). The \<open>assert\<close> is taken as
  compiled in. The result pairs the returned index, or the failure, with the map
  as it is at that moment.
\<close>

definition pack :: "'t \<Rightarrow> 't \<Rightarrow> 't RecordMap \<Rightarrow> (error + RamDomain) \<times> 't RecordMap" where
  "pack dflt tuple m =
     (case map_of (r2i m) tuple of
        Some index \<Rightarrow> (Inr index, m)
      | None \<Rightarrow>
          let index = (of_nat (length (r2i m) + 1) :: RamDomain);
              m1 = m\<lparr> r2i := r2i m @ [(tuple, index)] \<rparr>
          in if index = RamDomain_max then (Inl AssertionFailed, m1)
             else
               let m2 = (if to_size_t index div BLOCK_SIZE = length (i2r m1)
                         then m1\<lparr> i2r := i2r m1 @ [\<lambda>_. dflt] \<rparr> else m1)
               in if to_size_t index div BLOCK_SIZE < length (i2r m2)
                  then (Inr index,
                        m2\<lparr> i2r := (i2r m2)[to_size_t index div BLOCK_SIZE :=
                                  (i2r m2 ! (to_size_t index div BLOCK_SIZE))
                                    (to_size_t index mod BLOCK_SIZE := tuple)] \<rparr>)
                  else (Inl OutOfBounds, m2))"

text \<open>\<open>unpack\<close>, lines 196-199.\<close>

definition unpack :: "RamDomain \<Rightarrow> 't RecordMap \<Rightarrow> error + 't" where
  "unpack index m =
     (if to_size_t index div BLOCK_SIZE < length (i2r m)
      then Inr ((i2r m ! (to_size_t index div BLOCK_SIZE)) (to_size_t index mod BLOCK_SIZE))
      else Inl OutOfBounds)"

text \<open>
  A \<open>std::map<int, std::vector<RamDomain>>\<close>: an association list kept in
  increasing (signed) key order, which is the order a range-for visits it in.
  \<open>map_assign k v m\<close> is \<open>m[k] = v\<close>.
\<close>

type_synonym RecordReferences = "(RamDomain \<times> RamDomain list) list"

fun map_assign :: "RamDomain \<Rightarrow> RamDomain list \<Rightarrow> RecordReferences \<Rightarrow> RecordReferences" where
  "map_assign k v [] = [(k, v)]"
| "map_assign k v ((k', v') # m) =
     (if k = k' then (k, v) # m
      else if sint k < sint k' then (k, v) # (k', v') # m
      else (k', v') # map_assign k v m)"

text \<open>
  \<open>getRecordReferences\<close>, lines 201-208; \<open>toVector\<close> is the tuple type's
  member function of that name.
\<close>

definition getRecordReferences :: "('t \<Rightarrow> RamDomain list) \<Rightarrow> 't RecordMap \<Rightarrow> RecordReferences" where
  "getRecordReferences toVector m =
     fold (\<lambda>pair recordValues. map_assign (snd pair) (toVector (fst pair)) recordValues)
       (r2i m) []"

subsection \<open>The specialisation for empty records (lines 214-229)\<close>

text \<open>\<open>ram::Tuple<RamDomain, 0>\<close> has no fields: the one-element type.\<close>

type_synonym Tuple0 = unit

definition pack0 :: "Tuple0 \<Rightarrow> RamDomain" where
  "pack0 tuple = 1"

definition unpack0 :: "RamDomain \<Rightarrow> Tuple0" where
  "unpack0 index = ()"

definition toVector0 :: "Tuple0 \<Rightarrow> RamDomain list" where
  "toVector0 tuple = []"

definition getRecordReferences0 :: RecordReferences where
  "getRecordReferences0 = [(1, [])]"

subsection \<open>Sequences of calls\<close>

text \<open>
  \<open>pack_seq dflt ts m\<close> calls \<open>pack\<close> on each tuple of \<open>ts\<close> in turn, starting
  from the map \<open>m\<close>, and collects the returned indices; it stops at the first
  call that fails.
\<close>

fun pack_seq :: "'t \<Rightarrow> 't list \<Rightarrow> 't RecordMap \<Rightarrow> (error + RamDomain list) \<times> 't RecordMap" where
  "pack_seq dflt [] m = (Inr [], m)"
| "pack_seq dflt (t # ts) m =
     (case pack dflt t m of
        (Inl e, m') \<Rightarrow> (Inl e, m')
      | (Inr h, m') \<Rightarrow>
          (case pack_seq dflt ts m' of
             (Inl e, m'') \<Rightarrow> (Inl e, m'')
           | (Inr hs, m'') \<Rightarrow> (Inr (h # hs), m'')))"

text \<open>The distinct elements of a list, in the order in which they first occur.\<close>

definition first_seen_from :: "'t list \<Rightarrow> 't list \<Rightarrow> 't list" where
  "first_seen_from seen ts = fold (\<lambda>t acc. if t \<in> set acc then acc else acc @ [t]) ts seen"

definition first_seen :: "'t list \<Rightarrow> 't list" where
  "first_seen ts = first_seen_from [] ts"

subsection \<open>The consolidated record table (lines 77-120)\<close>

text \<open>
  \<open>getRecordTable\<close>, lines 92-111. The body is kept as written: \<open>recordTable\<close>
  is a function-local \<open>static\<close> and so is passed in and returned, while
  \<open>created\<close> is an ordinary local, set to \<open>false\<close> at every entry (the
  assignment \<open>created = true\<close> inside the branch is to that local and is gone
  when the function returns). \<open>maps\<close> is
  what the loop over \<open>getMaps()\<close> sees: the \<open>getRecordReferences()\<close> of every
  registered map, in the order of the registry. \<open>addRecord\<close> is
  \<open>RecordTable::addRecord\<close>, declared in RecordTable.h.
\<close>

definition getRecordTable ::
  "(RamDomain \<Rightarrow> RamDomain list \<Rightarrow> 'r \<Rightarrow> 'r) \<Rightarrow> RecordReferences list \<Rightarrow> 'r \<Rightarrow> 'r" where
  "getRecordTable addRecord maps recordTable =
     (let created = False
      in if \<not> created
         then fold (\<lambda>recordMap tbl.
                 fold (\<lambda>pair tbl'. addRecord (fst pair) (snd pair) tbl') recordMap tbl)
               maps recordTable
         else recordTable)"

text \<open>
  Modelled from the spec: \<open>RecordTable\<close> and its \<open>addRecord\<close> (RecordTable.h is
  not among the sources). The spec describes the table as one mapping keyed by
  handle into which each map's entries are merged.
\<close>

type_synonym RecordTable = "RamDomain \<rightharpoonup> RamDomain list"

definition addRecord :: "RamDomain \<Rightarrow> RamDomain list \<Rightarrow> RecordTable \<Rightarrow> RecordTable" where
  "addRecord ref tuple tbl = tbl(ref \<mapsto> tuple)"

subsection \<open>Well-formed record maps\<close>

text \<open>
  What holds of a map that only \<open>pack\<close> has touched: fewer entries than the
  largest \<open>RamDomain\<close>; no tuple twice in the forward index; the entry
  inserted as number \<open>i\<close> (from 0) carries the index \<open>i + 1\<close> and its tuple
  sits in block \<open>(i + 1) div BLOCK_SIZE\<close> at offset \<open>(i + 1) mod BLOCK_SIZE\<close>;
  the blocks allocated are exactly those up to the block of the last index; and
  the first slot of the first block still holds the value it was created with.
\<close>

definition RecordMap_inv :: "'t \<Rightarrow> 't RecordMap \<Rightarrow> bool" where
  "RecordMap_inv dflt m \<longleftrightarrow>
     length (r2i m) < 2 ^ 31 - 1 \<and>
     distinct (map fst (r2i m)) \<and>
     (\<forall>i<length (r2i m). snd (r2i m ! i) = of_nat (i + 1)) \<and>
     length (i2r m) = (if r2i m = [] then 0 else length (r2i m) div BLOCK_SIZE + 1) \<and>
     (\<forall>i<length (r2i m). (i2r m ! ((i + 1) div BLOCK_SIZE)) ((i + 1) mod BLOCK_SIZE) = fst (r2i m ! i)) \<and>
     (r2i m \<noteq> [] \<longrightarrow> (i2r m ! 0) 0 = dflt)"

text \<open>The two steps of lines 177-185 on the vector of blocks, for index \<open>k\<close>.\<close>

definition grow :: "'t \<Rightarrow> nat \<Rightarrow> (nat \<Rightarrow> 't) list \<Rightarrow> (nat \<Rightarrow> 't) list" where
  "grow dflt k bs = (if k div BLOCK_SIZE = length bs then bs @ [\<lambda>_. dflt] else bs)"

definition store :: "'t \<Rightarrow> nat \<Rightarrow> 't \<Rightarrow> (nat \<Rightarrow> 't) list \<Rightarrow> (nat \<Rightarrow> 't) list" where
  "store dflt k t bs =
     (grow dflt k bs)[k div BLOCK_SIZE := (grow dflt k bs ! (k div BLOCK_SIZE)) (k mod BLOCK_SIZE := t)]"

subsection \<open>Tuples and maps used as examples\<close>

text \<open>
  Modelled from the spec: \<open>Tuple::toVector\<close> (CompiledTuple.h is not among the
  sources). The spec has every handle mapped to its tuple's field sequence; in
  the examples a tuple is the list of its fields, which \<open>toVector\<close> returns.
\<close>

definition toVector :: "RamDomain list \<Rightarrow> RamDomain list" where
  "toVector tuple = tuple"

text \<open>The tuples \<open>(0)\<close>, \<open>(1)\<close>, ..., \<open>(n - 1)\<close> of a type with one field.\<close>

definition singleton_tuples :: "nat \<Rightarrow> RamDomain list list" where
  "singleton_tuples n = map (\<lambda>i. [of_nat i]) [0..<n]"

text \<open>
  The map left by packing the \<open>2 ^ 31 - 2\<close> tuples \<open>(0)\<close>, ..., \<open>(2 ^ 31 - 3)\<close>
  into an initial map, the blocks being created with the tuple \<open>(0)\<close>.
\<close>

definition capacity_map :: "RamDomain list RecordMap" where
  "capacity_map = snd (pack_seq [0] (singleton_tuples 2147483646) RecordMap_init)"

section \<open>Properties\<close>

subsection \<open>Indices as machine integers\<close>

lemma unat_of_nat_small: "k < 2 ^ 32 \<Longrightarrow> unat (of_nat k :: RamDomain) = k"
  by (simp add: unat_of_nat)

lemma sint_of_nat_small: "k < 2 ^ 31 \<Longrightarrow> sint (of_nat k :: RamDomain) = int k"
  by (simp add: signed_of_nat signed_take_bit_int_eq_self)

lemma to_size_t_of_nat: "k < 2 ^ 31 \<Longrightarrow> to_size_t (of_nat k) = k"
  by (simp add: to_size_t_def sint_of_nat_small)

lemma of_nat_eq_max: "k < 2 ^ 32 \<Longrightarrow> ((of_nat k :: RamDomain) = RamDomain_max) = (k = 2 ^ 31 - 1)"
  by (simp add: word_unat_eq_iff unat_of_nat_small RamDomain_max_def)

lemma of_nat_inj_small: "j < 2 ^ 32 \<Longrightarrow> k < 2 ^ 32 \<Longrightarrow> ((of_nat j :: RamDomain) = of_nat k) = (j = k)"
  by (simp add: word_unat_eq_iff unat_of_nat_small)

subsection \<open>What a call of pack returns\<close>

lemma RecordMap_inv_init: "RecordMap_inv dflt RecordMap_init"
  by (simp add: RecordMap_inv_def RecordMap_init_def)

lemma pack_present:
  "map_of (r2i m) t = Some h \<Longrightarrow> pack dflt t m = (Inr h, m)"
  by (simp add: pack_def)

lemma length_grow:
  assumes "length bs = (if n = 0 then 0 else n div BLOCK_SIZE + 1)"
  shows "length (grow dflt (Suc n) bs) = Suc n div BLOCK_SIZE + 1"
proof (cases "n = 0")
  case True
  then show ?thesis using assms by (simp add: grow_def BLOCK_SIZE_def)
next
  case False
  have "Suc n div BLOCK_SIZE = n div BLOCK_SIZE \<or> Suc n div BLOCK_SIZE = Suc (n div BLOCK_SIZE)"
    by (simp add: div_Suc)
  then show ?thesis using assms False by (auto simp: grow_def)
qed

lemma pack_absent:
  assumes "map_of (r2i m) t = None"
    and "Suc (length (r2i m)) < 2 ^ 31 - 1"
    and "length (i2r m) = (if r2i m = [] then 0 else length (r2i m) div BLOCK_SIZE + 1)"
  shows "pack dflt t m =
           (Inr (of_nat (Suc (length (r2i m)))),
            \<lparr> r2i = r2i m @ [(t, of_nat (Suc (length (r2i m))))],
              i2r = store dflt (Suc (length (r2i m))) t (i2r m) \<rparr>)"
proof -
  let ?k = "Suc (length (r2i m))"
  have k: "?k < 2 ^ 31" "?k < 2 ^ 32" using assms(2) by simp_all
  have nmax: "(of_nat ?k :: RamDomain) \<noteq> RamDomain_max"
    using assms(2) of_nat_eq_max [OF k(2)] by simp
  have sz: "to_size_t (of_nat ?k) = ?k" by (rule to_size_t_of_nat [OF k(1)])
  have len: "length (grow dflt ?k (i2r m)) = ?k div BLOCK_SIZE + 1"
    using length_grow [of "i2r m" "length (r2i m)" dflt] assms(3) by simp
  then have lt: "?k div BLOCK_SIZE < length (grow dflt ?k (i2r m))" by simp
  have "pack dflt t m =
     (let index = (of_nat ?k :: RamDomain);
          m1 = m\<lparr> r2i := r2i m @ [(t, index)] \<rparr>;
          m2 = m1\<lparr> i2r := grow dflt (to_size_t index) (i2r m1) \<rparr>
      in if to_size_t index div BLOCK_SIZE < length (i2r m2)
         then (Inr index,
               m2\<lparr> i2r := (i2r m2)[to_size_t index div BLOCK_SIZE :=
                        (i2r m2 ! (to_size_t index div BLOCK_SIZE))
                        (to_size_t index mod BLOCK_SIZE := t)] \<rparr>)
         else (Inl OutOfBounds, m2))"
    using assms(1) nmax
    by (simp add: pack_def Let_def grow_def del: of_nat_Suc of_nat_add)
  also have "\<dots> = (Inr (of_nat ?k),
            \<lparr> r2i = r2i m @ [(t, of_nat ?k)], i2r = store dflt ?k t (i2r m) \<rparr>)"
    unfolding Let_def sz using lt by (simp add: store_def del: of_nat_Suc of_nat_add)
  finally show ?thesis .
qed

lemma pack_full:
  assumes "map_of (r2i m) t = None" and "Suc (length (r2i m)) = 2 ^ 31 - 1"
  shows "pack dflt t m =
           (Inl AssertionFailed, m\<lparr> r2i := r2i m @ [(t, RamDomain_max)] \<rparr>)"
proof -
  have "(of_nat (Suc (length (r2i m))) :: RamDomain) = RamDomain_max"
    using of_nat_eq_max [of "Suc (length (r2i m))"] assms(2) by simp
  then show ?thesis using assms(1) by (simp add: pack_def Let_def del: of_nat_Suc of_nat_add)
qed

subsection \<open>The block store after an insertion\<close>

lemma length_store: "length (store dflt k t bs) = length (grow dflt k bs)"
  by (simp add: store_def)

lemma store_same:
  "k div BLOCK_SIZE \<le> length bs \<Longrightarrow>
   (store dflt k t bs ! (k div BLOCK_SIZE)) (k mod BLOCK_SIZE) = t"
  by (simp add: store_def grow_def)

lemma store_other:
  assumes "b < length bs" and "b \<noteq> k div BLOCK_SIZE \<or> off \<noteq> k mod BLOCK_SIZE"
  shows "(store dflt k t bs ! b) off = (bs ! b) off"
proof (cases "b = k div BLOCK_SIZE")
  case True
  then show ?thesis using assms by (simp add: store_def grow_def)
next
  case False
  then show ?thesis using assms(1) by (simp add: store_def grow_def nth_append)
qed

lemma slot_neq:
  "i \<noteq> k \<Longrightarrow> i div BLOCK_SIZE \<noteq> k div BLOCK_SIZE \<or> i mod BLOCK_SIZE \<noteq> k mod BLOCK_SIZE"
  by (metis div_mult_mod_eq)

lemma store_first_slot:
  assumes "0 < k" and "k div BLOCK_SIZE \<le> length bs" and "bs \<noteq> [] \<longrightarrow> (bs ! 0) 0 = dflt"
  shows "(store dflt k t bs ! 0) 0 = dflt"
proof (cases "bs = []")
  case True
  then have "k div BLOCK_SIZE = 0" using assms(2) by simp
  moreover have "k mod BLOCK_SIZE \<noteq> 0"
    using assms(1) calculation div_mult_mod_eq [of k BLOCK_SIZE] by auto
  ultimately show ?thesis using True by (simp add: store_def grow_def)
next
  case False
  then have "0 < length bs" by simp
  moreover have "0 \<noteq> k div BLOCK_SIZE \<or> 0 \<noteq> k mod BLOCK_SIZE"
    using slot_neq [of 0 k] assms(1) by simp
  ultimately have "(store dflt k t bs ! 0) 0 = (bs ! 0) 0" by (rule store_other)
  then show ?thesis using False assms(3) by simp
qed

lemma RecordMap_inv_pack_absent:
  assumes inv: "RecordMap_inv dflt m"
    and absent: "map_of (r2i m) t = None"
    and room: "Suc (length (r2i m)) < 2 ^ 31 - 1"
  shows "RecordMap_inv dflt
           \<lparr> r2i = r2i m @ [(t, of_nat (Suc (length (r2i m))))],
             i2r = store dflt (Suc (length (r2i m))) t (i2r m) \<rparr>"
proof -
  let ?n = "length (r2i m)"
  let ?k = "Suc ?n"
  let ?bs = "store dflt ?k t (i2r m)"
  have len: "length (i2r m) = (if ?n = 0 then 0 else ?n div BLOCK_SIZE + 1)"
    using inv by (simp add: RecordMap_inv_def)
  have le: "?k div BLOCK_SIZE \<le> length (i2r m)"
    using len by (auto simp: div_Suc BLOCK_SIZE_def)
  have c1: "distinct (map fst (r2i m @ [(t, of_nat ?k :: RamDomain)]))"
    using inv absent by (simp add: RecordMap_inv_def map_of_eq_None_iff)
  have c2: "\<forall>i<?k. snd ((r2i m @ [(t, of_nat ?k :: RamDomain)]) ! i) = of_nat (i + 1)"
    using inv by (auto simp: RecordMap_inv_def nth_append less_Suc_eq simp del: of_nat_Suc of_nat_add)
  have c3: "length ?bs = ?k div BLOCK_SIZE + 1"
    using length_grow [OF len] by (simp add: length_store)
  have c4: "(?bs ! ((i + 1) div BLOCK_SIZE)) ((i + 1) mod BLOCK_SIZE)
              = fst ((r2i m @ [(t, of_nat ?k :: RamDomain)]) ! i)" if "i < ?k" for i
  proof (cases "i = ?n")
    case True
    then show ?thesis using store_same [OF le] by simp
  next
    case False
    then have i: "i < ?n" using that by simp
    then have "?n \<noteq> 0" by auto
    then have "length (i2r m) = ?n div BLOCK_SIZE + 1" using len by simp
    moreover have "(i + 1) div BLOCK_SIZE \<le> ?n div BLOCK_SIZE"
      using i by (simp add: div_le_mono)
    ultimately have b: "(i + 1) div BLOCK_SIZE < length (i2r m)" by simp
    have "(?bs ! ((i + 1) div BLOCK_SIZE)) ((i + 1) mod BLOCK_SIZE)
            = (i2r m ! ((i + 1) div BLOCK_SIZE)) ((i + 1) mod BLOCK_SIZE)"
      using b slot_neq [of "i + 1" ?k] i by (intro store_other) simp_all
    also have "\<dots> = fst (r2i m ! i)" using inv i by (simp add: RecordMap_inv_def)
    finally show ?thesis using i by (simp add: nth_append)
  qed
  have c5: "(?bs ! 0) 0 = dflt"
    using inv le by (intro store_first_slot) (auto simp: RecordMap_inv_def)
  show ?thesis
    unfolding RecordMap_inv_def using room c1 c2 c3 c4 c5
    by (simp del: of_nat_Suc of_nat_add)
qed

subsection \<open>The distinct tuples of a run\<close>

lemma first_seen_from_Nil [simp]: "first_seen_from seen [] = seen"
  by (simp add: first_seen_from_def)

lemma first_seen_from_Cons [simp]:
  "first_seen_from seen (t # ts) = first_seen_from (if t \<in> set seen then seen else seen @ [t]) ts"
  by (simp add: first_seen_from_def)

lemma length_first_seen_from: "length seen \<le> length (first_seen_from seen ts)"
proof (induction ts arbitrary: seen)
  case Nil
  show ?case by simp
next
  case (Cons t ts)
  have "length seen \<le> length (if t \<in> set seen then seen else seen @ [t])" by simp
  also have "\<dots> \<le> length (first_seen_from (if t \<in> set seen then seen else seen @ [t]) ts)"
    by (rule Cons.IH)
  finally show ?case by simp
qed

lemma distinct_first_seen_from:
  "distinct seen \<Longrightarrow> distinct (first_seen_from seen ts)"
  by (induction ts arbitrary: seen) simp_all

lemma set_first_seen_from: "set (first_seen_from seen ts) = set seen \<union> set ts"
  by (induction ts arbitrary: seen) auto

lemma first_seen_from_distinct:
  "distinct (seen @ ts) \<Longrightarrow> first_seen_from seen ts = seen @ ts"
  by (induction ts arbitrary: seen) auto

subsection \<open>One call of pack on a well-formed map\<close>

lemma inv_lookup:
  assumes "RecordMap_inv dflt m" and "map_of (r2i m) t = Some h"
  shows "\<exists>i<length (r2i m). fst (r2i m ! i) = t \<and> h = of_nat (i + 1)"
proof -
  have "(t, h) \<in> set (r2i m)" using assms(2) by (rule map_of_SomeD)
  then obtain i where i: "i < length (r2i m)" "r2i m ! i = (t, h)"
    by (auto simp: in_set_conv_nth)
  moreover have "snd (r2i m ! i) = of_nat (i + 1)"
    using assms(1) i(1) by (simp add: RecordMap_inv_def)
  ultimately show ?thesis by (intro exI [of _ i]) simp
qed

lemma inv_slot:
  assumes "RecordMap_inv dflt m" and "i < length (r2i m)"
  shows "to_size_t (of_nat (i + 1)) = i + 1"
    and "(i + 1) div BLOCK_SIZE < length (i2r m)"
    and "(i2r m ! ((i + 1) div BLOCK_SIZE)) ((i + 1) mod BLOCK_SIZE) = fst (r2i m ! i)"
proof -
  have n: "length (r2i m) < 2 ^ 31 - 1" using assms(1) by (simp add: RecordMap_inv_def)
  then have "i + 1 < 2 ^ 31" using assms(2) by simp
  then show "to_size_t (of_nat (i + 1)) = i + 1" by (rule to_size_t_of_nat)
  have "r2i m \<noteq> []" using assms(2) by auto
  then have "length (i2r m) = length (r2i m) div BLOCK_SIZE + 1"
    using assms(1) by (simp add: RecordMap_inv_def)
  moreover have "(i + 1) div BLOCK_SIZE \<le> length (r2i m) div BLOCK_SIZE"
    using assms(2) by (simp add: div_le_mono)
  ultimately show "(i + 1) div BLOCK_SIZE < length (i2r m)" by simp
  show "(i2r m ! ((i + 1) div BLOCK_SIZE)) ((i + 1) mod BLOCK_SIZE) = fst (r2i m ! i)"
    using assms by (simp add: RecordMap_inv_def)
qed

lemma inv_unpack:
  assumes "RecordMap_inv dflt m" and "i < length (r2i m)"
  shows "unpack (of_nat (i + 1)) m = Inr (fst (r2i m ! i))"
  unfolding unpack_def inv_slot(1) [OF assms]
  using inv_slot(2,3) [OF assms] by simp

lemma inv_unpack_lookup:
  assumes "RecordMap_inv dflt m" and "map_of (r2i m) t = Some h"
  shows "unpack h m = Inr t"
  using inv_lookup [OF assms] inv_unpack [OF assms(1)] by auto

lemma pack_step:
  assumes inv: "RecordMap_inv dflt m" and p: "pack dflt t m = (Inr h, m')"
  shows "RecordMap_inv dflt m'"
    and "map_of (r2i m') t = Some h"
    and "map fst (r2i m') = first_seen_from (map fst (r2i m)) [t]"
    and "map_of (r2i m) t' = Some h' \<Longrightarrow> map_of (r2i m') t' = Some h'"
proof -
  have all: "RecordMap_inv dflt m' \<and> map_of (r2i m') t = Some h \<and>
      map fst (r2i m') = first_seen_from (map fst (r2i m)) [t] \<and>
      (map_of (r2i m) t' = Some h' \<longrightarrow> map_of (r2i m') t' = Some h')"
  proof (cases "map_of (r2i m) t")
    case (Some x)
    then have "pack dflt t m = (Inr x, m)" by (rule pack_present)
    then have "h = x" "m' = m" using p by simp_all
    moreover have "t \<in> fst ` set (r2i m)"
      using Some by (metis map_of_eq_None_iff option.distinct(1))
    ultimately show ?thesis using inv Some by simp
  next
    case None
    have le: "Suc (length (r2i m)) \<le> 2 ^ 31 - 1"
      using inv by (simp add: RecordMap_inv_def)
    have ne: "Suc (length (r2i m)) \<noteq> 2 ^ 31 - 1"
    proof
      assume "Suc (length (r2i m)) = 2 ^ 31 - 1"
      from pack_full [OF None this, of dflt] p show False by simp
    qed
    have room: "Suc (length (r2i m)) < 2 ^ 31 - 1" using le ne by simp
    have len: "length (i2r m) = (if r2i m = [] then 0 else length (r2i m) div BLOCK_SIZE + 1)"
      using inv by (simp add: RecordMap_inv_def)
    from pack_absent [OF None room len, of dflt] p
    have h: "h = of_nat (Suc (length (r2i m)))"
      and m': "m' = \<lparr> r2i = r2i m @ [(t, of_nat (Suc (length (r2i m))))],
                      i2r = store dflt (Suc (length (r2i m))) t (i2r m) \<rparr>"
      by simp_all
    have "RecordMap_inv dflt m'"
      unfolding m' by (rule RecordMap_inv_pack_absent [OF inv None room])
    moreover have "t \<notin> fst ` set (r2i m)"
      using None by (simp add: map_of_eq_None_iff)
    ultimately show ?thesis
      using None by (auto simp: m' h map_add_def simp del: of_nat_Suc of_nat_add)
  qed
  from all show "RecordMap_inv dflt m'" by simp
  from all show "map_of (r2i m') t = Some h" by simp
  from all show "map fst (r2i m') = first_seen_from (map fst (r2i m)) [t]" by simp
  from all show "map_of (r2i m) t' = Some h' \<Longrightarrow> map_of (r2i m') t' = Some h'" by simp
qed

subsection \<open>Sequences of calls from a well-formed map\<close>

lemma pack_seq_Cons_Inr:
  assumes "pack_seq dflt (t # ts) m = (Inr hs, m'')"
  obtains h hs' m' where "pack dflt t m = (Inr h, m')"
    and "pack_seq dflt ts m' = (Inr hs', m'')" and "hs = h # hs'"
  using assms by (auto split: prod.splits sum.splits)

lemma pack_seq_run:
  assumes "RecordMap_inv dflt m" and "pack_seq dflt ts m = (Inr hs, m')"
  shows "RecordMap_inv dflt m' \<and> length hs = length ts \<and>
         map fst (r2i m') = first_seen_from (map fst (r2i m)) ts \<and>
         (\<forall>i<length ts. map_of (r2i m') (ts ! i) = Some (hs ! i)) \<and>
         (\<forall>t h. map_of (r2i m) t = Some h \<longrightarrow> map_of (r2i m') t = Some h)"
  using assms
proof (induction ts arbitrary: m hs)
  case Nil
  then show ?case by simp
next
  case (Cons t ts)
  from Cons.prems(2) obtain h hs' m1 where
    p: "pack dflt t m = (Inr h, m1)" and
    r: "pack_seq dflt ts m1 = (Inr hs', m')" and hs: "hs = h # hs'"
    by (rule pack_seq_Cons_Inr)
  note st = pack_step [OF Cons.prems(1) p]
  note ih = Cons.IH [OF st(1) r]
  have keys: "map fst (r2i m') = first_seen_from (map fst (r2i m)) (t # ts)"
    using ih st(3) by simp
  have look: "\<forall>i<length (t # ts). map_of (r2i m') ((t # ts) ! i) = Some (hs ! i)"
  proof (intro allI impI)
    fix i assume "i < length (t # ts)"
    then show "map_of (r2i m') ((t # ts) ! i) = Some (hs ! i)"
      using ih st(2) hs by (cases i) simp_all
  qed
  have keep: "\<forall>t' h'. map_of (r2i m) t' = Some h' \<longrightarrow> map_of (r2i m') t' = Some h'"
    using ih st(4) by blast
  show ?case using ih hs keys look keep by simp
qed

lemma pack_seq_succeeds:
  assumes "RecordMap_inv dflt m"
    and "length (first_seen_from (map fst (r2i m)) ts) < 2 ^ 31 - 1"
  shows "\<exists>hs m'. pack_seq dflt ts m = (Inr hs, m')"
  using assms
proof (induction ts arbitrary: m)
  case Nil
  show ?case by simp
next
  case (Cons t ts)
  have "\<exists>h m1. pack dflt t m = (Inr h, m1)"
  proof (cases "map_of (r2i m) t")
    case (Some x)
    then show ?thesis by (simp add: pack_present)
  next
    case None
    then have "t \<notin> set (map fst (r2i m))" by (simp add: map_of_eq_None_iff)
    then have "length (first_seen_from (map fst (r2i m) @ [t]) ts) < 2 ^ 31 - 1"
      using Cons.prems(2) by simp
    moreover have "length (map fst (r2i m) @ [t]) \<le> length (first_seen_from (map fst (r2i m) @ [t]) ts)"
      by (rule length_first_seen_from)
    ultimately have room: "Suc (length (r2i m)) < 2 ^ 31 - 1" by simp
    have len: "length (i2r m) = (if r2i m = [] then 0 else length (r2i m) div BLOCK_SIZE + 1)"
      using Cons.prems(1) by (simp add: RecordMap_inv_def)
    show ?thesis using pack_absent [OF None room len, of dflt] by blast
  qed
  then obtain h m1 where p: "pack dflt t m = (Inr h, m1)" by blast
  note st = pack_step [OF Cons.prems(1) p]
  have "length (first_seen_from (map fst (r2i m1)) ts) < 2 ^ 31 - 1"
    using Cons.prems(2) st(3) by simp
  from Cons.IH [OF st(1) this] obtain hs m' where "pack_seq dflt ts m1 = (Inr hs, m')"
    by blast
  then show ?case using p by simp
qed

lemma run_from_init:
  assumes "pack_seq dflt ts RecordMap_init = (Inr hs, m)"
  shows "RecordMap_inv dflt m" and "length hs = length ts"
    and "map fst (r2i m) = first_seen ts"
    and "i < length ts \<Longrightarrow> map_of (r2i m) (ts ! i) = Some (hs ! i)"
  using pack_seq_run [OF RecordMap_inv_init assms]
  by (simp_all add: first_seen_def RecordMap_init_def)

subsection \<open>Where pack writes\<close>

lemma to_size_t_0: "to_size_t 0 = 0"
  by (simp add: to_size_t_def)

lemma to_size_t_BLOCK_SIZE: "to_size_t (of_nat BLOCK_SIZE) = BLOCK_SIZE"
  by (rule to_size_t_of_nat) (simp add: BLOCK_SIZE_def)

lemma block_range:
  "(k div BLOCK_SIZE = b) = (b * BLOCK_SIZE \<le> k \<and> k \<le> (b + 1) * BLOCK_SIZE - 1)"
proof
  assume "k div BLOCK_SIZE = b"
  then have b: "b = k div BLOCK_SIZE" by simp
  have pos: "0 < BLOCK_SIZE" by (simp add: BLOCK_SIZE_def)
  have "k div BLOCK_SIZE * BLOCK_SIZE \<le> k" by (rule div_times_less_eq_dividend)
  moreover have "k < BLOCK_SIZE + k div BLOCK_SIZE * BLOCK_SIZE"
    using pos by (rule dividend_less_div_times)
  ultimately show "b * BLOCK_SIZE \<le> k \<and> k \<le> (b + 1) * BLOCK_SIZE - 1"
    unfolding b by simp
next
  assume a: "b * BLOCK_SIZE \<le> k \<and> k \<le> (b + 1) * BLOCK_SIZE - 1"
  have pos: "0 < (b + 1) * BLOCK_SIZE" by (simp add: BLOCK_SIZE_def)
  have "BLOCK_SIZE * b \<le> k" using a by (simp add: mult.commute)
  moreover have "k < (b + 1) * BLOCK_SIZE" using a pos by linarith
  then have "k < BLOCK_SIZE * Suc b" by (simp add: mult.commute)
  ultimately show "k div BLOCK_SIZE = b" by (rule div_nat_eqI)
qed

lemma pack_writes:
  assumes "map_of (r2i m) t = None" and "pack dflt t m = (Inr h, m')"
  shows "to_size_t h div BLOCK_SIZE < length (i2r m')"
    and "(i2r m' ! (to_size_t h div BLOCK_SIZE)) (to_size_t h mod BLOCK_SIZE) = t"
  using assms
  by (auto simp: pack_def Let_def split: if_splits simp del: of_nat_Suc of_nat_add)

lemma pack_frame:
  assumes "pack dflt t m = (Inr h, m')" and "b < length (i2r m)"
    and "\<not> (b = to_size_t h div BLOCK_SIZE \<and> off = to_size_t h mod BLOCK_SIZE)"
  shows "(i2r m' ! b) off = (i2r m ! b) off"
proof (cases "map_of (r2i m) t")
  case (Some x)
  then have "pack dflt t m = (Inr x, m)" by (rule pack_present)
  then show ?thesis using assms(1) by simp
next
  case None
  then show ?thesis
    using assms
    by (auto simp: pack_def Let_def nth_append nth_list_update split: if_splits
             simp del: of_nat_Suc of_nat_add)
qed

subsection \<open>Runs from the initial map\<close>

lemma run_handle:
  assumes "pack_seq dflt ts RecordMap_init = (Inr hs, m)" and "i < length ts"
  shows "\<exists>k<length (first_seen ts). first_seen ts ! k = ts ! i \<and> hs ! i = of_nat (k + 1)"
proof -
  note r = run_from_init [OF assms(1)]
  from inv_lookup [OF r(1) r(4) [OF assms(2)]]
  obtain k where k: "k < length (r2i m)" "fst (r2i m ! k) = ts ! i" "hs ! i = of_nat (k + 1)"
    by blast
  have "length (first_seen ts) = length (r2i m)" using r(3) by (metis length_map)
  moreover have "first_seen ts ! k = fst (r2i m ! k)" using r(3) k(1) by (metis nth_map)
  ultimately show ?thesis using k by (intro exI [of _ k]) simp
qed

lemma run_capacity:
  assumes "pack_seq dflt ts RecordMap_init = (Inr hs, m)"
  shows "length (first_seen ts) < 2 ^ 31 - 1"
proof -
  note r = run_from_init [OF assms(1)]
  have "length (first_seen ts) = length (r2i m)" using r(3) by (metis length_map)
  then show ?thesis using r(1) by (simp add: RecordMap_inv_def)
qed

lemma distinct_first_seen: "distinct (first_seen ts)"
  by (simp add: first_seen_def distinct_first_seen_from)

lemma run_handle_of_position:
  assumes "pack_seq dflt ts RecordMap_init = (Inr hs, m)" and "i < length ts"
    and "k < length (first_seen ts)" and "ts ! i = first_seen ts ! k"
  shows "hs ! i = of_nat (k + 1)" and "sint (hs ! i) = int k + 1"
proof -
  from run_handle [OF assms(1,2)] obtain k' where
    k': "k' < length (first_seen ts)" "first_seen ts ! k' = ts ! i" "hs ! i = of_nat (k' + 1)"
    by blast
  have "k' = k"
    using distinct_first_seen [of ts] k'(1,2) assms(3,4) by (simp add: nth_eq_iff_index_eq)
  then show "hs ! i = of_nat (k + 1)" using k'(3) by simp
  have "k + 1 < 2 ^ 31" using run_capacity [OF assms(1)] assms(3) by simp
  then have "sint (of_nat (k + 1) :: RamDomain) = int (k + 1)" by (rule sint_of_nat_small)
  then show "sint (hs ! i) = int k + 1" using \<open>hs ! i = of_nat (k + 1)\<close> by simp
qed

lemma run_injective:
  assumes "pack_seq dflt ts RecordMap_init = (Inr hs, m)" and "i < length ts" and "j < length ts"
  shows "(hs ! i = hs ! j) = (ts ! i = ts ! j)"
proof -
  note r = run_from_init [OF assms(1)]
  have i: "map_of (r2i m) (ts ! i) = Some (hs ! i)" by (rule r(4) [OF assms(2)])
  have j: "map_of (r2i m) (ts ! j) = Some (hs ! j)" by (rule r(4) [OF assms(3)])
  have "unpack (hs ! i) m = Inr (ts ! i)" by (rule inv_unpack_lookup [OF r(1) i])
  moreover have "unpack (hs ! j) m = Inr (ts ! j)" by (rule inv_unpack_lookup [OF r(1) j])
  ultimately show ?thesis using i j by auto
qed

lemma run_unpack:
  assumes "pack_seq dflt ts RecordMap_init = (Inr hs, m)" and "i < length ts"
  shows "unpack (hs ! i) m = Inr (ts ! i)"
  using run_from_init(1,4) [OF assms(1)] assms(2) by (intro inv_unpack_lookup)

lemma first_seen_distinct: "distinct ts \<Longrightarrow> first_seen ts = ts"
  using first_seen_from_distinct [of "[]" ts] by (simp add: first_seen_def)

lemma run_slot:
  assumes "pack_seq dflt ts RecordMap_init = (Inr hs, m)" and "i < length ts"
  shows "1 \<le> sint (hs ! i)" and "1 \<le> to_size_t (hs ! i)"
    and "to_size_t (hs ! i) div BLOCK_SIZE < length (i2r m)"
    and "(i2r m ! (to_size_t (hs ! i) div BLOCK_SIZE)) (to_size_t (hs ! i) mod BLOCK_SIZE) = ts ! i"
    and "\<not> (to_size_t (hs ! i) div BLOCK_SIZE = 0 \<and> to_size_t (hs ! i) mod BLOCK_SIZE = 0)"
proof -
  note r = run_from_init [OF assms(1)]
  from inv_lookup [OF r(1) r(4) [OF assms(2)]]
  obtain k where k: "k < length (r2i m)" "fst (r2i m ! k) = ts ! i" "hs ! i = of_nat (k + 1)"
    by blast
  note s = inv_slot [OF r(1) k(1)]
  have "k + 1 < 2 ^ 31" using r(1) k(1) by (simp add: RecordMap_inv_def)
  then have "sint (of_nat (k + 1) :: RamDomain) = int (k + 1)" by (rule sint_of_nat_small)
  then show "1 \<le> sint (hs ! i)" unfolding k(3) by simp
  show "1 \<le> to_size_t (hs ! i)" unfolding k(3) s(1) by simp
  show "to_size_t (hs ! i) div BLOCK_SIZE < length (i2r m)" unfolding k(3) s(1) by (rule s(2))
  show "(i2r m ! (to_size_t (hs ! i) div BLOCK_SIZE)) (to_size_t (hs ! i) mod BLOCK_SIZE) = ts ! i"
    unfolding k(3) s(1) using s(3) k(2) by simp
  show "\<not> (to_size_t (hs ! i) div BLOCK_SIZE = 0 \<and> to_size_t (hs ! i) mod BLOCK_SIZE = 0)"
    unfolding k(3) s(1) using slot_neq [of 0 "k + 1"] by simp
qed

lemma run_first_slot:
  assumes "pack_seq dflt ts RecordMap_init = (Inr hs, m)" and "ts \<noteq> []"
  shows "0 < length (i2r m)" and "(i2r m ! 0) 0 = dflt" and "unpack 0 m = Inr dflt"
proof -
  note r = run_from_init [OF assms(1)]
  have "set (map fst (r2i m)) = set ts"
    unfolding r(3) by (simp add: first_seen_def set_first_seen_from)
  then have ne: "r2i m \<noteq> []" using assms(2) by auto
  then show l: "0 < length (i2r m)" using r(1) by (simp add: RecordMap_inv_def)
  show d: "(i2r m ! 0) 0 = dflt" using r(1) ne by (simp add: RecordMap_inv_def)
  show "unpack 0 m = Inr dflt" using l d by (simp add: unpack_def to_size_t_0)
qed

subsection \<open>A map filled to capacity\<close>

lemma length_singleton_tuples [simp]: "length (singleton_tuples n) = n"
  by (simp add: singleton_tuples_def)

lemma nth_singleton_tuples: "i < n \<Longrightarrow> singleton_tuples n ! i = [of_nat i]"
  by (simp add: singleton_tuples_def)

lemma distinct_singleton_tuples: "n \<le> 2 ^ 32 \<Longrightarrow> distinct (singleton_tuples n)"
  unfolding singleton_tuples_def
  by (auto simp: distinct_map inj_on_def of_nat_inj_small)

lemma capacity_run:
  "pack_seq [0] (singleton_tuples 2147483646) RecordMap_init =
     (Inr (map (\<lambda>i. of_nat (i + 1)) [0..<2147483646]), capacity_map)"
proof -
  let ?ts = "singleton_tuples 2147483646"
  have d: "distinct ?ts" by (rule distinct_singleton_tuples) simp
  then have fs: "first_seen ?ts = ?ts" by (rule first_seen_distinct)
  have "length (first_seen_from (map fst (r2i (RecordMap_init :: RamDomain list RecordMap))) ?ts)
          < 2 ^ 31 - 1"
    using fs by (simp add: first_seen_def RecordMap_init_def)
  from pack_seq_succeeds [OF RecordMap_inv_init this]
  obtain hs m where r: "pack_seq [0] ?ts RecordMap_init = (Inr hs, m)" by blast
  have l: "length hs = 2147483646" using run_from_init(2) [OF r] by simp
  have "hs ! i = of_nat (i + 1)" if "i < 2147483646" for i
    using that fs by (intro run_handle_of_position(1) [OF r]) simp_all
  then have "hs = map (\<lambda>i. of_nat (i + 1)) [0..<2147483646]"
    using l by (intro nth_equalityI) (simp_all del: of_nat_Suc of_nat_add)
  then show ?thesis using r by (simp add: capacity_map_def)
qed

lemma capacity_map_keys: "map fst (r2i capacity_map) = singleton_tuples 2147483646"
proof -
  have "distinct (singleton_tuples 2147483646)" by (rule distinct_singleton_tuples) simp
  then show ?thesis
    using run_from_init(3) [OF capacity_run] by (simp add: first_seen_distinct)
qed

lemma capacity_map_length: "length (r2i capacity_map) = 2147483646"
  using capacity_map_keys by (metis length_map length_singleton_tuples)

lemma capacity_map_absent: "map_of (r2i capacity_map) [2147483646] = None"
proof -
  have "[2147483646 :: RamDomain] \<notin> set (singleton_tuples 2147483646)"
  proof
    assume "[2147483646 :: RamDomain] \<in> set (singleton_tuples 2147483646)"
    then obtain i where i: "i < 2147483646" "(of_nat i :: RamDomain) = 2147483646"
      by (auto simp: singleton_tuples_def)
    have "(of_nat i :: RamDomain) = of_nat 2147483646" using i(2) by simp
    then have "i = 2147483646" using i(1) by (subst (asm) of_nat_inj_small) simp_all
    then show False using i(1) by simp
  qed
  then have "[2147483646 :: RamDomain] \<notin> fst ` set (r2i capacity_map)"
    using capacity_map_keys by (metis set_map)
  then show ?thesis by (simp add: map_of_eq_None_iff)
qed

section \<open>The claims\<close>

subsection \<open>C1: the consolidated record table\<close>

text \<open>
  Claim C1 says that \<open>getRecordTable\<close> walks the registry on its first call only
  and afterwards returns the table built then. In the source the flag \<open>created\<close>
  is not \<open>static\<close>, so the guard \<open>if (!created)\<close> is passed at every call:
  whatever table the earlier calls left, the call folds every entry of every
  registered map into it again. The scenario: one record map for pairs is
  registered; \<open>getRecordTable\<close> is called while that map is empty, giving the
  empty table; then \<open>(7, 8)\<close> is packed; then \<open>getRecordTable\<close> is called
  again on the table of the first call. The second call returns a table with the
  entry \<open>1 \<mapsto> (7, 8)\<close>, which differs from the table of the first call.
\<close>

theorem getRecordTable_rebuilt:
  "getRecordTable add maps tbl =
     fold (\<lambda>recordMap. fold (\<lambda>pair. add (fst pair) (snd pair)) recordMap) maps tbl \<and>
   getRecordTable addRecord [getRecordReferences toVector RecordMap_init] Map.empty = Map.empty \<and>
   fst (pack [0, 0] [7, 8] RecordMap_init) = Inr 1 \<and>
   getRecordTable addRecord
      [getRecordReferences toVector (snd (pack [0, 0] [7, 8] RecordMap_init))]
      (getRecordTable addRecord [getRecordReferences toVector RecordMap_init] Map.empty)
     = [1 \<mapsto> [7, 8]] \<and>
   getRecordTable addRecord
      [getRecordReferences toVector (snd (pack [0, 0] [7, 8] RecordMap_init))]
      (getRecordTable addRecord [getRecordReferences toVector RecordMap_init] Map.empty)
     \<noteq> getRecordTable addRecord [getRecordReferences toVector RecordMap_init] Map.empty"
proof -
  have "[(1 :: RamDomain) \<mapsto> [7, 8 :: RamDomain]] 1 \<noteq> Map.empty 1" by simp
  then have "[(1 :: RamDomain) \<mapsto> [7, 8 :: RamDomain]] \<noteq> Map.empty" by metis
  moreover have "getRecordTable add maps tbl =
     fold (\<lambda>recordMap. fold (\<lambda>pair. add (fst pair) (snd pair)) recordMap) maps tbl"
    by (simp add: getRecordTable_def)
  ultimately show ?thesis
    by (simp add: getRecordTable_def getRecordReferences_def addRecord_def toVector_def
        pack_def RecordMap_init_def to_size_t_def BLOCK_SIZE_def RamDomain_max_def)
qed

subsection \<open>C2: running out of indices\<close>

text \<open>
  Claim C2 as stated: when \<open>pack\<close> fails for lack of indices, the check comes
  before the new entry is committed, so no new forward-index entry exists at the
  failure. Counterexample: pack the tuples \<open>(0)\<close>, ..., \<open>(2 ^ 31 - 3)\<close> (all
  calls return), then \<open>(2 ^ 31 - 2)\<close>, which is not yet in the forward index.
  That call fails by the assertion, and the forward index at that moment maps
  the new tuple to \<open>2 ^ 31 - 1\<close>.
\<close>

theorem pack_capacity_exhaustion_counterexample:
  "\<not> isl (fst (pack_seq [0] (singleton_tuples 2147483646) RecordMap_init)) \<and>
   capacity_map = snd (pack_seq [0] (singleton_tuples 2147483646) RecordMap_init) \<and>
   map_of (r2i capacity_map) [2147483646] = None \<and>
   fst (pack [0] [2147483646] capacity_map) = Inl AssertionFailed \<and>
   map_of (r2i (snd (pack [0] [2147483646] capacity_map))) [2147483646] = Some RamDomain_max"
proof -
  have a: "map_of (r2i capacity_map) [2147483646] = None" by (rule capacity_map_absent)
  have "Suc (length (r2i capacity_map)) = 2 ^ 31 - 1" by (simp add: capacity_map_length)
  from pack_full [OF a this, of "[0]"]
  have p: "pack [0] [2147483646] capacity_map =
     (Inl AssertionFailed,
      capacity_map\<lparr> r2i := r2i capacity_map @ [([2147483646], RamDomain_max)] \<rparr>)" .
  have "[2147483646] \<notin> fst ` set (r2i capacity_map)" using a by (simp add: map_of_eq_None_iff)
  then have "map_of (r2i (snd (pack [0] [2147483646] capacity_map))) [2147483646]
               = Some RamDomain_max"
    unfolding p using a by (simp add: map_add_def)
  then show ?thesis using a p by (simp add: capacity_run capacity_map_def [symmetric])
qed

text \<open>
  Claim C2 as amended. For every map and every tuple absent from its forward
  index: if the new index \<open>size + 1\<close> equals the largest \<open>RamDomain\<close>, then
  \<open>pack\<close> fails by the assertion; the check comes after the insertion into the
  forward index and before the block store is touched, so at the failure the
  forward index holds the new entry (the tuple under the largest \<open>RamDomain\<close>)
  and the blocks and their number are unchanged. The assertion fails in no other
  situation.
\<close>

theorem pack_capacity_exhaustion:
  "(map_of (r2i m) t = None \<and> of_nat (length (r2i m) + 1) = RamDomain_max \<longrightarrow>
      pack dflt t m = (Inl AssertionFailed, m\<lparr> r2i := r2i m @ [(t, RamDomain_max)] \<rparr>) \<and>
      map_of (r2i (snd (pack dflt t m))) t = Some RamDomain_max \<and>
      i2r (snd (pack dflt t m)) = i2r m) \<and>
   (fst (pack dflt t m) = Inl AssertionFailed \<longrightarrow>
      map_of (r2i m) t = None \<and> of_nat (length (r2i m) + 1) = RamDomain_max)"
proof (intro conjI impI)
  assume a: "map_of (r2i m) t = None \<and> of_nat (length (r2i m) + 1) = RamDomain_max"
  then show p: "pack dflt t m = (Inl AssertionFailed, m\<lparr> r2i := r2i m @ [(t, RamDomain_max)] \<rparr>)"
    by (simp add: pack_def Let_def del: of_nat_Suc of_nat_add)
  have "t \<notin> fst ` set (r2i m)" using a by (simp add: map_of_eq_None_iff)
  then show "map_of (r2i (snd (pack dflt t m))) t = Some RamDomain_max"
    unfolding p using a by (simp add: map_add_def)
  show "i2r (snd (pack dflt t m)) = i2r m" unfolding p by simp
next
  assume f: "fst (pack dflt t m) = Inl AssertionFailed"
  then show "map_of (r2i m) t = None"
    by (cases "map_of (r2i m) t") (simp_all add: pack_def)
  from f show "of_nat (length (r2i m) + 1) = RamDomain_max"
    by (cases "map_of (r2i m) t")
       (simp_all add: pack_def Let_def split: if_splits del: of_nat_Suc of_nat_add)
qed

text \<open>The amended claim at the map filled to capacity and the tuple \<open>(2 ^ 31 - 2)\<close>.\<close>

theorem pack_capacity_exhaustion_witness:
  "map_of (r2i capacity_map) [2147483646] = None \<and>
   of_nat (length (r2i capacity_map) + 1) = RamDomain_max \<and>
   pack [0] [2147483646] capacity_map =
     (Inl AssertionFailed,
      capacity_map\<lparr> r2i := r2i capacity_map @ [([2147483646], RamDomain_max)] \<rparr>) \<and>
   fst (pack [0] [2147483646] capacity_map) = Inl AssertionFailed"
proof -
  have a: "map_of (r2i capacity_map) [2147483646] = None" by (rule capacity_map_absent)
  have b: "(of_nat (length (r2i capacity_map) + 1) :: RamDomain) = RamDomain_max"
    by (simp add: capacity_map_length RamDomain_max_def)
  note t = pack_capacity_exhaustion [of capacity_map "[2147483646]" "[0]"]
  from t a b have c: "pack [0] [2147483646] capacity_map =
     (Inl AssertionFailed,
      capacity_map\<lparr> r2i := r2i capacity_map @ [([2147483646], RamDomain_max)] \<rparr>)"
    by blast
  then have d: "fst (pack [0] [2147483646] capacity_map) = Inl AssertionFailed" by simp
  with t have "map_of (r2i capacity_map) [2147483646] = None \<and>
     (of_nat (length (r2i capacity_map) + 1) :: RamDomain) = RamDomain_max" by blast
  then show ?thesis using c d by blast
qed

subsection \<open>C3: addressing of the block store\<close>

text \<open>
  Claim C3 as stated: the tuple of index \<open>h\<close> is at block
  \<open>(h - 1) div BLOCK_SIZE\<close>, offset \<open>(h - 1) mod BLOCK_SIZE\<close>, and block \<open>b\<close>
  holds the indices from \<open>b * BLOCK_SIZE + 1\<close> to \<open>(b + 1) * BLOCK_SIZE\<close>.
  Counterexample: \<open>(1, 2, 3)\<close> packed into the initial map gets index 1 and is
  stored at offset 1 of block 0; offset 0, where the claim puts it, holds another
  tuple. And the index \<open>BLOCK_SIZE\<close>, which the claim puts in block 0, has
  block number 1.
\<close>

theorem block_addressing_counterexample:
  "fst (pack [0, 0, 0] [1, 2, 3 :: RamDomain] RecordMap_init) = Inr 1 \<and>
   (i2r (snd (pack [0, 0, 0] [1, 2, 3 :: RamDomain] RecordMap_init)) ! ((to_size_t 1 - 1) div BLOCK_SIZE))
      ((to_size_t 1 - 1) mod BLOCK_SIZE) \<noteq> [1, 2, 3] \<and>
   (i2r (snd (pack [0, 0, 0] [1, 2, 3 :: RamDomain] RecordMap_init)) ! (to_size_t 1 div BLOCK_SIZE))
      (to_size_t 1 mod BLOCK_SIZE) = [1, 2, 3] \<and>
   unpack 1 (snd (pack [0, 0, 0] [1, 2, 3 :: RamDomain] RecordMap_init)) = Inr [1, 2, 3] \<and>
   to_size_t 1048576 = 1 * BLOCK_SIZE \<and> to_size_t 1048576 div BLOCK_SIZE \<noteq> 0"
  by (simp add: pack_def unpack_def RecordMap_init_def to_size_t_def BLOCK_SIZE_def
      RamDomain_max_def)

text \<open>
  Claim C3 as amended. The tuple of index \<open>h\<close> is at block \<open>h div BLOCK_SIZE\<close>,
  offset \<open>h mod BLOCK_SIZE\<close>: after a run from the initial map every returned
  index has its tuple there; a call of \<open>pack\<close> that inserts a tuple writes it
  there; \<open>unpack\<close> reads from there. So block \<open>b\<close> holds exactly the indices
  from \<open>b * BLOCK_SIZE\<close> to \<open>(b + 1) * BLOCK_SIZE - 1\<close>, where the index 0
  (offset 0 of block 0) is never returned by \<open>pack\<close>.
\<close>

theorem block_addressing:
  "(pack_seq dflt ts RecordMap_init = (Inr hs, m) \<longrightarrow>
      (\<forall>i<length ts. 1 \<le> to_size_t (hs ! i) \<and>
         to_size_t (hs ! i) div BLOCK_SIZE < length (i2r m) \<and>
         (i2r m ! (to_size_t (hs ! i) div BLOCK_SIZE)) (to_size_t (hs ! i) mod BLOCK_SIZE) = ts ! i)) \<and>
   (map_of (r2i m) t = None \<and> pack dflt t m = (Inr h, m') \<longrightarrow>
      to_size_t h div BLOCK_SIZE < length (i2r m') \<and>
      (i2r m' ! (to_size_t h div BLOCK_SIZE)) (to_size_t h mod BLOCK_SIZE) = t) \<and>
   (unpack h m = Inr x \<longrightarrow>
      to_size_t h div BLOCK_SIZE < length (i2r m) \<and>
      x = (i2r m ! (to_size_t h div BLOCK_SIZE)) (to_size_t h mod BLOCK_SIZE)) \<and>
   ((to_size_t h div BLOCK_SIZE = b) =
      (b * BLOCK_SIZE \<le> to_size_t h \<and> to_size_t h \<le> (b + 1) * BLOCK_SIZE - 1))"
proof (intro conjI impI allI)
  fix i
  assume r: "pack_seq dflt ts RecordMap_init = (Inr hs, m)" and i: "i < length ts"
  show "1 \<le> to_size_t (hs ! i)" by (rule run_slot(2) [OF r i])
  show "to_size_t (hs ! i) div BLOCK_SIZE < length (i2r m)" by (rule run_slot(3) [OF r i])
  show "(i2r m ! (to_size_t (hs ! i) div BLOCK_SIZE)) (to_size_t (hs ! i) mod BLOCK_SIZE) = ts ! i"
    by (rule run_slot(4) [OF r i])
next
  assume a: "map_of (r2i m) t = None \<and> pack dflt t m = (Inr h, m')"
  then have n: "map_of (r2i m) t = None" and p: "pack dflt t m = (Inr h, m')" by simp_all
  show "to_size_t h div BLOCK_SIZE < length (i2r m')" by (rule pack_writes(1) [OF n p])
  show "(i2r m' ! (to_size_t h div BLOCK_SIZE)) (to_size_t h mod BLOCK_SIZE) = t"
    by (rule pack_writes(2) [OF n p])
next
  assume u: "unpack h m = Inr x"
  then show "to_size_t h div BLOCK_SIZE < length (i2r m)"
    by (simp add: unpack_def split: if_splits)
  from u show "x = (i2r m ! (to_size_t h div BLOCK_SIZE)) (to_size_t h mod BLOCK_SIZE)"
    by (simp add: unpack_def split: if_splits)
next
  show "(to_size_t h div BLOCK_SIZE = b) =
      (b * BLOCK_SIZE \<le> to_size_t h \<and> to_size_t h \<le> (b + 1) * BLOCK_SIZE - 1)"
    by (rule block_range)
qed

text \<open>The amended claim at \<open>(1, 2, 3)\<close> and \<open>(4, 5, 6)\<close>, packed in this order.\<close>

theorem block_addressing_witness:
  "pack_seq [0, 0, 0] [[1, 2, 3]] RecordMap_init =
     (Inr [1], \<lparr> r2i = [([1, 2, 3], 1)], i2r = [(\<lambda>_. [0, 0, 0 :: RamDomain])(1 := [1, 2, 3])] \<rparr>) \<and>
   (i2r \<lparr> r2i = [([1, 2, 3], 1)], i2r = [(\<lambda>_. [0, 0, 0 :: RamDomain])(1 := [1, 2, 3])] \<rparr>
      ! (to_size_t ([1] ! 0) div BLOCK_SIZE)) (to_size_t ([1] ! 0) mod BLOCK_SIZE) = [[1, 2, 3]] ! 0 \<and>
   map_of (r2i \<lparr> r2i = [([1, 2, 3 :: RamDomain], 1)], i2r = [(\<lambda>_. [0, 0, 0])(1 := [1, 2, 3])] \<rparr>)
     [4, 5, 6] = None \<and>
   pack [0, 0, 0] [4, 5, 6]
       \<lparr> r2i = [([1, 2, 3], 1)], i2r = [(\<lambda>_. [0, 0, 0 :: RamDomain])(1 := [1, 2, 3])] \<rparr> =
     (Inr 2, \<lparr> r2i = [([1, 2, 3], 1), ([4, 5, 6], 2)],
        i2r = [(\<lambda>_. [0, 0, 0 :: RamDomain])(1 := [1, 2, 3], 2 := [4, 5, 6])] \<rparr>) \<and>
   (i2r \<lparr> r2i = [([1, 2, 3], 1), ([4, 5, 6], 2)],
        i2r = [(\<lambda>_. [0, 0, 0 :: RamDomain])(1 := [1, 2, 3], 2 := [4, 5, 6])] \<rparr>
      ! (to_size_t 2 div BLOCK_SIZE)) (to_size_t 2 mod BLOCK_SIZE) = [4, 5, 6] \<and>
   unpack 2 \<lparr> r2i = [([1, 2, 3], 1), ([4, 5, 6], 2)],
        i2r = [(\<lambda>_. [0, 0, 0 :: RamDomain])(1 := [1, 2, 3], 2 := [4, 5, 6])] \<rparr> = Inr [4, 5, 6] \<and>
   [4, 5, 6] = (i2r \<lparr> r2i = [([1, 2, 3], 1), ([4, 5, 6], 2)],
        i2r = [(\<lambda>_. [0, 0, 0 :: RamDomain])(1 := [1, 2, 3], 2 := [4, 5, 6])] \<rparr>
      ! (to_size_t 2 div BLOCK_SIZE)) (to_size_t 2 mod BLOCK_SIZE)"
proof -
  let ?d = "[0, 0, 0 :: RamDomain]"
  let ?m1 = "\<lparr> r2i = [([1, 2, 3], 1)], i2r = [(\<lambda>_. ?d)(1 := [1, 2, 3])] \<rparr>"
  let ?m2 = "\<lparr> r2i = [([1, 2, 3], 1), ([4, 5, 6], 2)],
        i2r = [(\<lambda>_. ?d)(1 := [1, 2, 3], 2 := [4, 5, 6])] \<rparr>"
  have r: "pack_seq ?d [[1, 2, 3]] RecordMap_init = (Inr [1], ?m1)"
    by (simp add: pack_def RecordMap_init_def to_size_t_def BLOCK_SIZE_def RamDomain_max_def)
  have n: "map_of (r2i ?m1) [4, 5, 6] = None" by simp
  have p: "pack ?d [4, 5, 6] ?m1 = (Inr 2, ?m2)"
    by (simp add: pack_def to_size_t_def BLOCK_SIZE_def RamDomain_max_def)
  have u: "unpack 2 ?m2 = Inr [4, 5, 6]"
    by (simp add: unpack_def to_size_t_def BLOCK_SIZE_def)
  from block_addressing [of ?d "[[1, 2, 3]]" "[1]" ?m1] r
  have "\<forall>i<length [[1, 2, 3 :: RamDomain]].
      to_size_t ([1] ! i) div BLOCK_SIZE < length (i2r ?m1) \<and>
      (i2r ?m1 ! (to_size_t ([1] ! i) div BLOCK_SIZE)) (to_size_t ([1] ! i) mod BLOCK_SIZE)
        = [[1, 2, 3]] ! i"
    by blast
  then have "0 < length [[1, 2, 3 :: RamDomain]] \<longrightarrow>
      to_size_t ([1] ! 0) div BLOCK_SIZE < length (i2r ?m1) \<and>
      (i2r ?m1 ! (to_size_t ([1] ! 0) div BLOCK_SIZE)) (to_size_t ([1] ! 0) mod BLOCK_SIZE)
        = [[1, 2, 3]] ! 0"
    by (rule spec)
  moreover have "0 < length [[1, 2, 3 :: RamDomain]]" by simp
  ultimately have a: "(i2r ?m1 ! (to_size_t ([1] ! 0) div BLOCK_SIZE)) (to_size_t ([1] ! 0) mod BLOCK_SIZE)
        = [[1, 2, 3]] ! 0"
    by blast
  from block_addressing [of ?d _ _ ?m1 "[4, 5, 6]" 2 ?m2] n p
  have b: "(i2r ?m2 ! (to_size_t 2 div BLOCK_SIZE)) (to_size_t 2 mod BLOCK_SIZE) = [4, 5, 6]"
    by blast
  from block_addressing [of _ _ _ ?m2 _ 2 _ "[4, 5, 6]"] u
  have c: "[4, 5, 6] = (i2r ?m2 ! (to_size_t 2 div BLOCK_SIZE)) (to_size_t 2 mod BLOCK_SIZE)"
    by blast
  show ?thesis using r a n p b u c by blast
qed

subsection \<open>C4: unpacking what was packed\<close>

text \<open>
  Claim C4. In a map reached from the initial one by calls of \<open>pack\<close>, a call
  of \<open>pack\<close> on \<open>t\<close> that returns \<open>h\<close> leaves a map in which \<open>unpack h\<close> is
  \<open>t\<close>; every index returned during a run still unpacks to its tuple at the
  end of the run; and packing \<open>BLOCK_SIZE + 1\<close> distinct tuples into an initial
  map succeeds, returns 1 for the first and \<open>BLOCK_SIZE + 1\<close> for the last, and
  these two indices unpack to the first and the last tuple.
\<close>

theorem pack_unpack_round_trip:
  "(pack_seq dflt ts RecordMap_init = (Inr hs, m) \<and> pack dflt t m = (Inr h, m') \<longrightarrow>
      unpack h m' = Inr t) \<and>
   (pack_seq dflt ts RecordMap_init = (Inr hs, m) \<longrightarrow>
      (\<forall>i<length ts. unpack (hs ! i) m = Inr (ts ! i))) \<and>
   (distinct ts \<and> length ts = BLOCK_SIZE + 1 \<longrightarrow>
      (\<exists>hs m. pack_seq dflt ts RecordMap_init = (Inr hs, m) \<and>
         hs ! 0 = 1 \<and> hs ! BLOCK_SIZE = of_nat (BLOCK_SIZE + 1) \<and>
         unpack 1 m = Inr (ts ! 0) \<and>
         unpack (of_nat (BLOCK_SIZE + 1)) m = Inr (ts ! BLOCK_SIZE)))"
proof (intro conjI impI allI)
  assume a: "pack_seq dflt ts RecordMap_init = (Inr hs, m) \<and> pack dflt t m = (Inr h, m')"
  then have "pack_seq dflt ts RecordMap_init = (Inr hs, m)" by simp
  then have inv: "RecordMap_inv dflt m" by (rule run_from_init(1))
  from a have p: "pack dflt t m = (Inr h, m')" by simp
  show "unpack h m' = Inr t"
    using pack_step(1,2) [OF inv p] by (rule inv_unpack_lookup)
next
  fix i
  assume "pack_seq dflt ts RecordMap_init = (Inr hs, m)" and "i < length ts"
  then show "unpack (hs ! i) m = Inr (ts ! i)" by (rule run_unpack)
next
  assume a: "distinct ts \<and> length ts = BLOCK_SIZE + 1"
  then have fs: "first_seen ts = ts" by (simp add: first_seen_distinct)
  have len: "length ts = BLOCK_SIZE + 1" using a by simp
  have "length (first_seen_from (map fst (r2i (RecordMap_init :: 'a RecordMap))) ts) < 2 ^ 31 - 1"
    using fs len by (simp add: first_seen_def RecordMap_init_def BLOCK_SIZE_def)
  from pack_seq_succeeds [OF RecordMap_inv_init this]
  obtain hs m where r: "pack_seq dflt ts RecordMap_init = (Inr hs, m)" by blast
  have h0: "hs ! 0 = of_nat (0 + 1)"
    using len fs by (intro run_handle_of_position(1) [OF r]) simp_all
  have hb: "hs ! BLOCK_SIZE = of_nat (BLOCK_SIZE + 1)"
    using len fs by (intro run_handle_of_position(1) [OF r]) simp_all
  have u0: "unpack (hs ! 0) m = Inr (ts ! 0)"
    using len by (intro run_unpack [OF r]) simp
  have ub: "unpack (hs ! BLOCK_SIZE) m = Inr (ts ! BLOCK_SIZE)"
    using len by (intro run_unpack [OF r]) simp
  show "\<exists>hs m. pack_seq dflt ts RecordMap_init = (Inr hs, m) \<and>
         hs ! 0 = 1 \<and> hs ! BLOCK_SIZE = of_nat (BLOCK_SIZE + 1) \<and>
         unpack 1 m = Inr (ts ! 0) \<and>
         unpack (of_nat (BLOCK_SIZE + 1)) m = Inr (ts ! BLOCK_SIZE)"
    using r h0 hb u0 ub by (intro exI [of _ hs] exI [of _ m]) simp
qed

text \<open>
  The three parts at \<open>(1, 2, 3)\<close> followed by \<open>(4, 5, 6)\<close>, and at the
  \<open>BLOCK_SIZE + 1\<close> tuples \<open>(0)\<close>, ..., \<open>(BLOCK_SIZE)\<close>.
\<close>

theorem pack_unpack_round_trip_witness:
  "pack_seq [0, 0, 0] [[1, 2, 3]] RecordMap_init =
     (Inr [1], \<lparr> r2i = [([1, 2, 3], 1)], i2r = [(\<lambda>_. [0, 0, 0 :: RamDomain])(1 := [1, 2, 3])] \<rparr>) \<and>
   pack [0, 0, 0] [4, 5, 6]
       \<lparr> r2i = [([1, 2, 3], 1)], i2r = [(\<lambda>_. [0, 0, 0 :: RamDomain])(1 := [1, 2, 3])] \<rparr> =
     (Inr 2, \<lparr> r2i = [([1, 2, 3], 1), ([4, 5, 6], 2)],
        i2r = [(\<lambda>_. [0, 0, 0 :: RamDomain])(1 := [1, 2, 3], 2 := [4, 5, 6])] \<rparr>) \<and>
   unpack 2 \<lparr> r2i = [([1, 2, 3], 1), ([4, 5, 6], 2)],
        i2r = [(\<lambda>_. [0, 0, 0 :: RamDomain])(1 := [1, 2, 3], 2 := [4, 5, 6])] \<rparr> = Inr [4, 5, 6] \<and>
   unpack ([1] ! 0) \<lparr> r2i = [([1, 2, 3], 1)], i2r = [(\<lambda>_. [0, 0, 0 :: RamDomain])(1 := [1, 2, 3])] \<rparr> =
     Inr ([[1, 2, 3]] ! 0) \<and>
   distinct (singleton_tuples (BLOCK_SIZE + 1)) \<and>
   length (singleton_tuples (BLOCK_SIZE + 1)) = BLOCK_SIZE + 1 \<and>
   (\<exists>hs m. pack_seq [0] (singleton_tuples (BLOCK_SIZE + 1)) RecordMap_init = (Inr hs, m) \<and>
      hs ! 0 = 1 \<and> hs ! BLOCK_SIZE = of_nat (BLOCK_SIZE + 1) \<and>
      unpack 1 m = Inr [0] \<and>
      unpack (of_nat (BLOCK_SIZE + 1)) m = Inr [of_nat BLOCK_SIZE])"
proof -
  let ?d = "[0, 0, 0 :: RamDomain]"
  let ?m1 = "\<lparr> r2i = [([1, 2, 3], 1)], i2r = [(\<lambda>_. ?d)(1 := [1, 2, 3])] \<rparr>"
  let ?m2 = "\<lparr> r2i = [([1, 2, 3], 1), ([4, 5, 6], 2)],
        i2r = [(\<lambda>_. ?d)(1 := [1, 2, 3], 2 := [4, 5, 6])] \<rparr>"
  let ?ts = "singleton_tuples (BLOCK_SIZE + 1)"
  have r: "pack_seq ?d [[1, 2, 3]] RecordMap_init = (Inr [1], ?m1)"
    by (simp add: pack_def RecordMap_init_def to_size_t_def BLOCK_SIZE_def RamDomain_max_def)
  have p: "pack ?d [4, 5, 6] ?m1 = (Inr 2, ?m2)"
    by (simp add: pack_def to_size_t_def BLOCK_SIZE_def RamDomain_max_def)
  note t1 = pack_unpack_round_trip [of ?d "[[1, 2, 3]]" "[1]" ?m1 "[4, 5, 6]" 2 ?m2]
  from t1 r p have a: "unpack 2 ?m2 = Inr [4, 5, 6]" by blast
  from t1 r have "\<forall>i<length [[1, 2, 3 :: RamDomain]]. unpack ([1] ! i) ?m1 = Inr ([[1, 2, 3]] ! i)"
    by blast
  then have b: "unpack ([1] ! 0) ?m1 = Inr ([[1, 2, 3]] ! 0)" by simp
  have d: "distinct ?ts" by (rule distinct_singleton_tuples) (simp add: BLOCK_SIZE_def)
  have l: "length ?ts = BLOCK_SIZE + 1" by simp
  have n0: "?ts ! 0 = [0]" using nth_singleton_tuples [of 0 "BLOCK_SIZE + 1"] by simp
  have nb: "?ts ! BLOCK_SIZE = [of_nat BLOCK_SIZE]" by (rule nth_singleton_tuples) simp
  from pack_unpack_round_trip [of "[0]" ?ts] d l
  have "\<exists>hs m. pack_seq [0] ?ts RecordMap_init = (Inr hs, m) \<and>
         hs ! 0 = 1 \<and> hs ! BLOCK_SIZE = of_nat (BLOCK_SIZE + 1) \<and>
         unpack 1 m = Inr (?ts ! 0) \<and>
         unpack (of_nat (BLOCK_SIZE + 1)) m = Inr (?ts ! BLOCK_SIZE)"
    by blast
  then have c: "\<exists>hs m. pack_seq [0] ?ts RecordMap_init = (Inr hs, m) \<and>
      hs ! 0 = 1 \<and> hs ! BLOCK_SIZE = of_nat (BLOCK_SIZE + 1) \<and>
      unpack 1 m = Inr [0] \<and>
      unpack (of_nat (BLOCK_SIZE + 1)) m = Inr [of_nat BLOCK_SIZE]"
    unfolding n0 nb .
  show ?thesis using r p a b d l c by blast
qed

subsection \<open>C5: the indices handed out\<close>

text \<open>
  Claim C5. In a run of \<open>pack\<close> calls from the initial map in which every
  call returns, a call on the \<open>k\<close>-th distinct tuple of the run (counted from 1,
  in order of first occurrence; \<open>first_seen ts ! (k - 1)\<close>) returns \<open>k\<close>, which
  is positive as a signed integer; two calls return the same index exactly when
  their tuples are equal. Every call of a run returns as long as the run has
  fewer than \<open>2 ^ 31 - 1\<close> distinct tuples. \<open>first_seen ts\<close> lists the elements
  of \<open>ts\<close> without repetition.
\<close>

theorem pack_handles_dense:
  "(pack_seq dflt ts RecordMap_init = (Inr hs, m) \<longrightarrow>
      length hs = length ts \<and>
      (\<forall>i<length ts. \<forall>k<length (first_seen ts).
         ts ! i = first_seen ts ! k \<longrightarrow> hs ! i = of_nat (k + 1) \<and> sint (hs ! i) = int k + 1) \<and>
      (\<forall>i<length ts. \<forall>j<length ts. (hs ! i = hs ! j) = (ts ! i = ts ! j))) \<and>
   (length (first_seen ts) < 2 ^ 31 - 1 \<longrightarrow>
      (\<exists>hs m. pack_seq dflt ts RecordMap_init = (Inr hs, m))) \<and>
   distinct (first_seen ts) \<and> set (first_seen ts) = set ts"
proof (intro conjI impI allI)
  assume r: "pack_seq dflt ts RecordMap_init = (Inr hs, m)"
  show "length hs = length ts" by (rule run_from_init(2) [OF r])
  show "hs ! i = of_nat (k + 1)"
    if "i < length ts" "k < length (first_seen ts)" "ts ! i = first_seen ts ! k" for i k
    by (rule run_handle_of_position(1) [OF r that])
  show "sint (hs ! i) = int k + 1"
    if "i < length ts" "k < length (first_seen ts)" "ts ! i = first_seen ts ! k" for i k
    by (rule run_handle_of_position(2) [OF r that])
  show "(hs ! i = hs ! j) = (ts ! i = ts ! j)" if "i < length ts" "j < length ts" for i j
    by (rule run_injective [OF r that])
next
  assume "length (first_seen ts) < 2 ^ 31 - 1"
  then show "\<exists>hs m. pack_seq dflt ts RecordMap_init = (Inr hs, m)"
    using pack_seq_succeeds [OF RecordMap_inv_init, of ts dflt]
    by (simp add: first_seen_def RecordMap_init_def)
next
  show "distinct (first_seen ts)" by (rule distinct_first_seen)
  show "set (first_seen ts) = set ts" by (simp add: first_seen_def set_first_seen_from)
qed

text \<open>The run packing \<open>(1, 2, 3)\<close>, \<open>(1, 2, 3)\<close>, \<open>(4, 5, 6)\<close> returns 1, 1, 2.\<close>

theorem pack_handles_dense_witness:
  "pack_seq [0, 0, 0] [[1, 2, 3], [1, 2, 3], [4, 5, 6]] RecordMap_init =
     (Inr [1, 1, 2], \<lparr> r2i = [([1, 2, 3], 1), ([4, 5, 6], 2)],
        i2r = [(\<lambda>_. [0, 0, 0 :: RamDomain])(1 := [1, 2, 3], 2 := [4, 5, 6])] \<rparr>) \<and>
   first_seen [[1, 2, 3], [1, 2, 3], [4, 5, 6 :: RamDomain]] = [[1, 2, 3], [4, 5, 6]] \<and>
   [1, 1, 2 :: RamDomain] ! 2 = of_nat (1 + 1) \<and> sint ([1, 1, 2 :: RamDomain] ! 2) = int 1 + 1 \<and>
   ([1, 1, 2 :: RamDomain] ! 0 = [1, 1, 2] ! 1) =
     ([[1, 2, 3], [1, 2, 3], [4, 5, 6 :: RamDomain]] ! 0 = [[1, 2, 3], [1, 2, 3], [4, 5, 6]] ! 1) \<and>
   length (first_seen [[1, 2, 3], [1, 2, 3], [4, 5, 6 :: RamDomain]]) < 2 ^ 31 - 1 \<and>
   (\<exists>hs m. pack_seq [0, 0, 0] [[1, 2, 3], [1, 2, 3], [4, 5, 6 :: RamDomain]] RecordMap_init = (Inr hs, m))"
proof -
  let ?ts = "[[1, 2, 3], [1, 2, 3], [4, 5, 6 :: RamDomain]]"
  let ?m = "\<lparr> r2i = [([1, 2, 3], 1), ([4, 5, 6], 2)],
        i2r = [(\<lambda>_. [0, 0, 0 :: RamDomain])(1 := [1, 2, 3], 2 := [4, 5, 6])] \<rparr>"
  have r: "pack_seq [0, 0, 0] ?ts RecordMap_init = (Inr [1, 1, 2], ?m)"
    by (simp add: pack_def RecordMap_init_def to_size_t_def BLOCK_SIZE_def RamDomain_max_def)
  have f: "first_seen ?ts = [[1, 2, 3], [4, 5, 6]]" by (simp add: first_seen_def)
  note t = pack_handles_dense [of "[0, 0, 0]" ?ts "[1, 1, 2]" ?m]
  from t r have "\<forall>i<length ?ts. \<forall>k<length (first_seen ?ts).
         ?ts ! i = first_seen ?ts ! k \<longrightarrow>
         [1, 1, 2 :: RamDomain] ! i = of_nat (k + 1) \<and> sint ([1, 1, 2 :: RamDomain] ! i) = int k + 1"
    by blast
  then have a: "[1, 1, 2 :: RamDomain] ! 2 = of_nat (1 + 1) \<and> sint ([1, 1, 2 :: RamDomain] ! 2) = int 1 + 1"
    unfolding f by simp
  from t r have "\<forall>i<length ?ts. \<forall>j<length ?ts. ([1, 1, 2 :: RamDomain] ! i = [1, 1, 2] ! j) = (?ts ! i = ?ts ! j)"
    by blast
  then have b: "([1, 1, 2 :: RamDomain] ! 0 = [1, 1, 2] ! 1) = (?ts ! 0 = ?ts ! 1)"
    by simp
  have c: "length (first_seen ?ts) < 2 ^ 31 - 1" unfolding f by simp
  with t have d: "\<exists>hs m. pack_seq [0, 0, 0] ?ts RecordMap_init = (Inr hs, m)" by blast
  show ?thesis using r f a b c d by blast
qed

subsection \<open>C6: packing a tuple again\<close>

text \<open>
  Claim C6. A call of \<open>pack\<close> that returned the index \<open>h\<close> for the tuple \<open>t\<close>
  returns \<open>h\<close> again when repeated on the map it left behind, and leaves that
  map as it is; and whenever \<open>t\<close> is present in the forward index under \<open>h\<close>,
  \<open>pack\<close> returns \<open>h\<close> and the whole map (forward index, blocks and their
  number) is unchanged. This holds of every map.
\<close>

theorem pack_idempotent:
  "(pack dflt t m = (Inr h, m') \<longrightarrow> pack dflt t m' = (Inr h, m')) \<and>
   (map_of (r2i m) t = Some h \<longrightarrow> pack dflt t m = (Inr h, m))"
proof (intro conjI impI)
  assume p: "pack dflt t m = (Inr h, m')"
  show "pack dflt t m' = (Inr h, m')"
  proof (cases "map_of (r2i m) t")
    case (Some x)
    then have "pack dflt t m = (Inr x, m)" by (rule pack_present)
    then show ?thesis using p by simp
  next
    case None
    then have "t \<notin> fst ` set (r2i m)" by (simp add: map_of_eq_None_iff)
    then have "map_of (r2i m') t = Some h"
      using p None
      by (auto simp: pack_def Let_def map_add_def split: if_splits simp del: of_nat_Suc of_nat_add)
    then show ?thesis by (rule pack_present)
  qed
next
  assume "map_of (r2i m) t = Some h"
  then show "pack dflt t m = (Inr h, m)" by (rule pack_present)
qed

text \<open>Both cases at the tuple \<open>(1, 2, 3)\<close>, packed into the initial map and then again.\<close>

theorem pack_idempotent_witness:
  "pack [0, 0, 0] [1, 2, 3] RecordMap_init =
     (Inr 1, \<lparr> r2i = [([1, 2, 3], 1)], i2r = [(\<lambda>_. [0, 0, 0 :: RamDomain])(1 := [1, 2, 3])] \<rparr>) \<and>
   map_of (r2i \<lparr> r2i = [([1, 2, 3 :: RamDomain], 1)], i2r = [(\<lambda>_. [0, 0, 0])(1 := [1, 2, 3])] \<rparr>) [1, 2, 3]
     = Some 1 \<and>
   pack [0, 0, 0] [1, 2, 3]
       \<lparr> r2i = [([1, 2, 3], 1)], i2r = [(\<lambda>_. [0, 0, 0 :: RamDomain])(1 := [1, 2, 3])] \<rparr> =
     (Inr 1, \<lparr> r2i = [([1, 2, 3], 1)], i2r = [(\<lambda>_. [0, 0, 0 :: RamDomain])(1 := [1, 2, 3])] \<rparr>)"
proof -
  let ?d = "[0, 0, 0 :: RamDomain]" and ?t = "[1, 2, 3 :: RamDomain]"
  let ?m1 = "\<lparr> r2i = [(?t, 1)], i2r = [(\<lambda>_. ?d)(1 := ?t)] \<rparr>"
  have p: "pack ?d ?t RecordMap_init = (Inr 1, ?m1)"
    by (simp add: pack_def RecordMap_init_def to_size_t_def BLOCK_SIZE_def RamDomain_max_def)
  have l: "map_of (r2i ?m1) ?t = Some 1" by simp
  from pack_idempotent [of ?d ?t RecordMap_init 1 ?m1] p
  have "pack ?d ?t ?m1 = (Inr 1, ?m1)" by blast
  moreover from pack_idempotent [of ?d ?t ?m1 1 ?m1] l
  have "pack ?d ?t ?m1 = (Inr 1, ?m1)" by blast
  ultimately show ?thesis using p l by blast
qed

subsection \<open>C8: the map of empty records\<close>

text \<open>
  Claim C8. In the specialisation for the tuple type without fields, \<open>pack\<close>
  returns 1 for every argument and touches no state (it has none); \<open>unpack\<close>
  returns the same empty tuple whatever index it is given; and
  \<open>getRecordReferences\<close> has exactly one entry, from 1 to the empty sequence of
  fields.
\<close>

theorem empty_tuple_specialisation:
  "pack0 t = 1 \<and> unpack0 h = unpack0 h' \<and> toVector0 (unpack0 h) = [] \<and>
   getRecordReferences0 = [(1, [])]"
  by (simp add: pack0_def unpack0_def toVector0_def getRecordReferences0_def)

subsection \<open>C9: the null reference\<close>

text \<open>
  Claim C9. \<open>getNull\<close> is 0; \<open>isNull h\<close> holds exactly when \<open>h\<close> is 0; and no
  index returned by \<open>pack\<close> in a run from the initial map is null: each is
  positive as a signed integer.
\<close>

theorem null_reference:
  "getNull = 0 \<and> isNull getNull \<and> isNull h = (h = 0) \<and>
   (pack_seq dflt ts RecordMap_init = (Inr hs, m) \<longrightarrow> (\<forall>h' \<in> set hs. \<not> isNull h' \<and> 0 < sint h'))"
proof -
  have "\<not> isNull h' \<and> 0 < sint h'"
    if r: "pack_seq dflt ts RecordMap_init = (Inr hs, m)" and h': "h' \<in> set hs" for h'
  proof -
    have "length hs = length ts" by (rule run_from_init(2) [OF r])
    then obtain i where i: "i < length ts" "hs ! i = h'"
      using h' by (metis in_set_conv_nth)
    from run_handle [OF r i(1)] obtain k where
      k: "k < length (first_seen ts)" "first_seen ts ! k = ts ! i" by blast
    from run_handle_of_position(2) [OF r i(1) k(1) k(2) [symmetric]]
    have "sint h' = int k + 1" using i(2) by simp
    then have "0 < sint h'" by simp
    moreover from this have "h' \<noteq> 0" by auto
    ultimately show ?thesis by (simp add: isNull_def)
  qed
  then show ?thesis by (simp add: getNull_def isNull_def)
qed

text \<open>The run packing \<open>(1, 2, 3)\<close>, \<open>(1, 2, 3)\<close>, \<open>(4, 5, 6)\<close> and its last index.\<close>

theorem null_reference_witness:
  "pack_seq [0, 0, 0] [[1, 2, 3], [1, 2, 3], [4, 5, 6]] RecordMap_init =
     (Inr [1, 1, 2], \<lparr> r2i = [([1, 2, 3], 1), ([4, 5, 6], 2)],
        i2r = [(\<lambda>_. [0, 0, 0 :: RamDomain])(1 := [1, 2, 3], 2 := [4, 5, 6])] \<rparr>) \<and>
   (2 :: RamDomain) \<in> set [1, 1, 2] \<and> \<not> isNull 2 \<and> 0 < sint (2 :: RamDomain)"
proof -
  let ?m = "\<lparr> r2i = [([1, 2, 3], 1), ([4, 5, 6], 2)],
        i2r = [(\<lambda>_. [0, 0, 0 :: RamDomain])(1 := [1, 2, 3], 2 := [4, 5, 6])] \<rparr>"
  have r: "pack_seq [0, 0, 0] [[1, 2, 3], [1, 2, 3], [4, 5, 6]] RecordMap_init = (Inr [1, 1, 2], ?m)"
    by (simp add: pack_def RecordMap_init_def to_size_t_def BLOCK_SIZE_def RamDomain_max_def)
  have "(2 :: RamDomain) \<in> set [1, 1, 2]" by simp
  with null_reference [of 2 "[0, 0, 0]" "[[1, 2, 3], [1, 2, 3], [4, 5, 6]]" "[1, 1, 2]" ?m] r
  show ?thesis by simp
qed

subsection \<open>C10: the first slot of the first block\<close>

text \<open>
  Claim C10. After a run from the initial map with at least one call, all
  returning: block 0 exists, its offset 0 still holds the tuple the block was
  created with, and \<open>unpack 0\<close> returns that tuple; every returned index is at
  least 1 and its slot is not offset 0 of block 0. A call of \<open>pack\<close> changes no
  slot of the existing blocks other than the slot of the index it returns. The
  index \<open>BLOCK_SIZE\<close> has block number 1.
\<close>

theorem first_slot_never_written:
  "(pack_seq dflt ts RecordMap_init = (Inr hs, m) \<and> ts \<noteq> [] \<longrightarrow>
      0 < length (i2r m) \<and> (i2r m ! 0) 0 = dflt \<and> unpack 0 m = Inr dflt \<and>
      (\<forall>i<length ts. 1 \<le> sint (hs ! i) \<and>
         \<not> (to_size_t (hs ! i) div BLOCK_SIZE = 0 \<and> to_size_t (hs ! i) mod BLOCK_SIZE = 0))) \<and>
   (pack dflt t m = (Inr h, m') \<longrightarrow>
      (\<forall>b<length (i2r m). \<forall>off.
         \<not> (b = to_size_t h div BLOCK_SIZE \<and> off = to_size_t h mod BLOCK_SIZE) \<longrightarrow>
         (i2r m' ! b) off = (i2r m ! b) off)) \<and>
   to_size_t (of_nat BLOCK_SIZE) div BLOCK_SIZE = 1"
proof (intro conjI impI allI)
  assume a: "pack_seq dflt ts RecordMap_init = (Inr hs, m) \<and> ts \<noteq> []"
  then have r: "pack_seq dflt ts RecordMap_init = (Inr hs, m)" and ne: "ts \<noteq> []" by simp_all
  show "0 < length (i2r m)" by (rule run_first_slot(1) [OF r ne])
  show "(i2r m ! 0) 0 = dflt" by (rule run_first_slot(2) [OF r ne])
  show "unpack 0 m = Inr dflt" by (rule run_first_slot(3) [OF r ne])
  show "1 \<le> sint (hs ! i)" if "i < length ts" for i by (rule run_slot(1) [OF r that])
  show "\<not> (to_size_t (hs ! i) div BLOCK_SIZE = 0 \<and> to_size_t (hs ! i) mod BLOCK_SIZE = 0)"
    if "i < length ts" for i by (rule run_slot(5) [OF r that])
next
  fix b off
  assume "pack dflt t m = (Inr h, m')" and "b < length (i2r m)"
    and "\<not> (b = to_size_t h div BLOCK_SIZE \<and> off = to_size_t h mod BLOCK_SIZE)"
  then show "(i2r m' ! b) off = (i2r m ! b) off" by (rule pack_frame)
next
  show "to_size_t (of_nat BLOCK_SIZE) div BLOCK_SIZE = 1"
    unfolding to_size_t_BLOCK_SIZE by (simp add: BLOCK_SIZE_def)
qed

text \<open>The claim at \<open>(1, 2, 3)\<close> packed into the initial map, followed by \<open>(4, 5, 6)\<close>.\<close>

theorem first_slot_never_written_witness:
  "pack_seq [0, 0, 0] [[1, 2, 3]] RecordMap_init =
     (Inr [1], \<lparr> r2i = [([1, 2, 3], 1)], i2r = [(\<lambda>_. [0, 0, 0 :: RamDomain])(1 := [1, 2, 3])] \<rparr>) \<and>
   [[1, 2, 3 :: RamDomain]] \<noteq> [] \<and>
   unpack 0 \<lparr> r2i = [([1, 2, 3], 1)], i2r = [(\<lambda>_. [0, 0, 0 :: RamDomain])(1 := [1, 2, 3])] \<rparr>
     = Inr [0, 0, 0] \<and>
   1 \<le> sint ([1 :: RamDomain] ! 0) \<and>
   pack [0, 0, 0] [4, 5, 6]
       \<lparr> r2i = [([1, 2, 3], 1)], i2r = [(\<lambda>_. [0, 0, 0 :: RamDomain])(1 := [1, 2, 3])] \<rparr> =
     (Inr 2, \<lparr> r2i = [([1, 2, 3], 1), ([4, 5, 6], 2)],
        i2r = [(\<lambda>_. [0, 0, 0 :: RamDomain])(1 := [1, 2, 3], 2 := [4, 5, 6])] \<rparr>) \<and>
   (i2r \<lparr> r2i = [([1, 2, 3], 1), ([4, 5, 6], 2)],
        i2r = [(\<lambda>_. [0, 0, 0 :: RamDomain])(1 := [1, 2, 3], 2 := [4, 5, 6])] \<rparr> ! 0) 0 =
   (i2r \<lparr> r2i = [([1, 2, 3], 1)], i2r = [(\<lambda>_. [0, 0, 0 :: RamDomain])(1 := [1, 2, 3])] \<rparr> ! 0) 0"
proof -
  let ?d = "[0, 0, 0 :: RamDomain]"
  let ?m1 = "\<lparr> r2i = [([1, 2, 3], 1)], i2r = [(\<lambda>_. ?d)(1 := [1, 2, 3])] \<rparr>"
  let ?m2 = "\<lparr> r2i = [([1, 2, 3], 1), ([4, 5, 6], 2)],
        i2r = [(\<lambda>_. ?d)(1 := [1, 2, 3], 2 := [4, 5, 6])] \<rparr>"
  have r: "pack_seq ?d [[1, 2, 3]] RecordMap_init = (Inr [1], ?m1)"
    by (simp add: pack_def RecordMap_init_def to_size_t_def BLOCK_SIZE_def RamDomain_max_def)
  have p: "pack ?d [4, 5, 6] ?m1 = (Inr 2, ?m2)"
    by (simp add: pack_def to_size_t_def BLOCK_SIZE_def RamDomain_max_def)
  have ne: "[[1, 2, 3 :: RamDomain]] \<noteq> []" by simp
  note t = first_slot_never_written [of ?d "[[1, 2, 3]]" "[1]" ?m1 "[4, 5, 6]" 2 ?m2]
  from t r ne have a: "unpack 0 ?m1 = Inr ?d" by blast
  from t r ne have "\<forall>i<length [[1, 2, 3 :: RamDomain]]. 1 \<le> sint ([1 :: RamDomain] ! i)"
    by blast
  then have b: "1 \<le> sint ([1 :: RamDomain] ! 0)" by simp
  from t p have "\<forall>b<length (i2r ?m1). \<forall>off.
         \<not> (b = to_size_t 2 div BLOCK_SIZE \<and> off = to_size_t 2 mod BLOCK_SIZE) \<longrightarrow>
         (i2r ?m2 ! b) off = (i2r ?m1 ! b) off"
    by blast
  moreover have "to_size_t 2 mod BLOCK_SIZE \<noteq> 0" by (simp add: to_size_t_def BLOCK_SIZE_def)
  ultimately have c: "(i2r ?m2 ! 0) 0 = (i2r ?m1 ! 0) 0" by simp
  show ?thesis using r ne a b p c by blast
qed

end
